theory Spec2Isabelle
  imports Main "HOL-Library.AList" "HOL-Library.Char_ord" "HOL-Library.List_Lexorder"
begin

section \<open>Values of the simulator\<close>

text \<open>
  A cost in the source is a Python number: an unbounded \<open>int\<close> read from the
  topology, or the float \<open>INF = float('inf')\<close>. No other float is ever produced,
  so a cost is either a finite integer or infinity.
\<close>

datatype cost = Finite int | Infinity

instantiation cost :: linorder
begin

fun less_eq_cost :: "cost \<Rightarrow> cost \<Rightarrow> bool" where
  "less_eq_cost (Finite a) (Finite b) = (a \<le> b)"
| "less_eq_cost (Finite a) Infinity = True"
| "less_eq_cost Infinity (Finite b) = False"
| "less_eq_cost Infinity Infinity = True"

definition less_cost :: "cost \<Rightarrow> cost \<Rightarrow> bool" where
  "less_cost x y = (x \<le> y \<and> \<not> y \<le> x)"

instance
proof
  fix x y z :: cost
  show "(x < y) = (x \<le> y \<and> \<not> y \<le> x)"
    by (simp add: less_cost_def)
  show "x \<le> x"
    by (cases x) simp_all
  show "x \<le> y \<Longrightarrow> y \<le> z \<Longrightarrow> x \<le> z"
    by (cases x; cases y; cases z) simp_all
  show "x \<le> y \<Longrightarrow> y \<le> x \<Longrightarrow> x = y"
    by (cases x; cases y) simp_all
  show "x \<le> y \<or> y \<le> x"
    by (cases x; cases y) auto
qed

end

text \<open>The exceptions the core can raise.\<close>

datatype error = KeyError | TypeError | ValueError | OverflowError

text \<open>
  The second argument of \<open>update_net\<close> is an untyped Python dict. Its entries are
  looked up and added to a link cost, so the model keeps the two kinds of value that
  reach that addition apart: a number, or a dict (a vector of costs).
\<close>

datatype adv = Num cost | Vec "(string \<times> cost) list"

text \<open>
  Python dicts keep insertion order, and an assignment to a present key keeps its
  position: \<open>AList.update\<close> on an association list. Subscripting a missing key
  raises \<open>KeyError\<close>.
\<close>

definition lookup :: "'k \<Rightarrow> ('k \<times> 'v) list \<Rightarrow> error + 'v" where
  "lookup k d = (case map_of d k of None \<Rightarrow> Inl KeyError | Some v \<Rightarrow> Inr v)"

fun foldE :: "('a \<Rightarrow> 's \<Rightarrow> error + 's) \<Rightarrow> 'a list \<Rightarrow> 's \<Rightarrow> error + 's" where
  "foldE f [] s = Inr s"
| "foldE f (x # xs) s = (case f x s of Inl e \<Rightarrow> Inl e | Inr s' \<Rightarrow> foldE f xs s')"

text \<open>
  \<open>int + float('inf')\<close> converts the int to a float first, which raises
  \<open>OverflowError\<close> when the int rounds to \<open>2 ^ 1024\<close> or beyond; \<open>int + dict\<close>
  raises \<open>TypeError\<close>.
\<close>

definition float_overflows :: "int \<Rightarrow> bool" where
  "float_overflows i = (2 ^ 1024 - 2 ^ 970 \<le> \<bar>i\<bar>)"

fun add_cost :: "int \<Rightarrow> adv \<Rightarrow> error + cost" where
  "add_cost c (Num (Finite j)) = Inr (Finite (c + j))"
| "add_cost c (Num Infinity) = (if float_overflows c then Inl OverflowError else Inr Infinity)"
| "add_cost c (Vec v) = Inl TypeError"

text \<open>\<open>min\<close> of an iterable; an empty one raises \<open>ValueError\<close>.\<close>

fun min_of :: "'a::linorder list \<Rightarrow> error + 'a" where
  "min_of [] = Inl ValueError"
| "min_of (x # xs) = Inr (fold min xs x)"

section \<open>Router\<close>

record router =
  name :: string
  neighbors :: "(string \<times> int) list"
  dis_vec :: "(string \<times> cost) list"
  next_hop :: "(string \<times> string option) list"
  vec_table :: "(string \<times> (string \<times> cost) list) list"

definition Router :: "string \<Rightarrow> router" where
  "Router nm = \<lparr>name = nm, neighbors = [], dis_vec = [], next_hop = [], vec_table = []\<rparr>"

subsection \<open>init_net\<close>

definition init_node :: "string \<Rightarrow> router \<Rightarrow> router" where
  "init_node node r =
     (if node = name r then
        r\<lparr>dis_vec := AList.update node (Finite 0) (dis_vec r),
          next_hop := AList.update node (Some (name r)) (next_hop r)\<rparr>
      else (case map_of (neighbors r) node of
        Some c \<Rightarrow>
          r\<lparr>dis_vec := AList.update node (Finite c) (dis_vec r),
            next_hop := AList.update node (Some (name r)) (next_hop r)\<rparr>
      | None \<Rightarrow>
          r\<lparr>dis_vec := AList.update node Infinity (dis_vec r),
            next_hop := AList.update node None (next_hop r)\<rparr>))"

definition init_cell ::
  "router \<Rightarrow> string \<Rightarrow> string \<Rightarrow> (string \<times> cost) list \<Rightarrow> error + (string \<times> cost) list" where
  "init_cell r node n row =
     (if n = node then
        (case lookup n (neighbors r) of
           Inl e \<Rightarrow> Inl e
         | Inr c \<Rightarrow> Inr (AList.update n (Finite c) row))
      else Inr (AList.update n Infinity row))"

definition init_row :: "string \<Rightarrow> router \<Rightarrow> error + router" where
  "init_row node r =
     (case foldE (init_cell r node) (map fst (neighbors r)) [] of
        Inl e \<Rightarrow> Inl e
      | Inr row \<Rightarrow> Inr (r\<lparr>vec_table := AList.update node row (vec_table r)\<rparr>))"

definition init_net :: "string list \<Rightarrow> router \<Rightarrow> error + router" where
  "init_net routers r = foldE init_row routers (fold init_node routers r)"

subsection \<open>poisoned_reverse\<close>

definition poisoned_entry :: "router \<Rightarrow> string option \<Rightarrow> string \<Rightarrow> error + cost" where
  "poisoned_entry r target_neighbor dest =
     (case target_neighbor of
        None \<Rightarrow> lookup dest (dis_vec r)
      | Some t \<Rightarrow>
          (case lookup dest (next_hop r) of
             Inl e \<Rightarrow> Inl e
           | Inr h \<Rightarrow>
               if h = Some t \<and> dest \<noteq> t then Inr Infinity
               else lookup dest (dis_vec r)))"

definition poisoned_step ::
  "router \<Rightarrow> string option \<Rightarrow> string \<Rightarrow> (string \<times> cost) list \<Rightarrow> error + (string \<times> cost) list" where
  "poisoned_step r target_neighbor dest dv =
     (case poisoned_entry r target_neighbor dest of
        Inl e \<Rightarrow> Inl e
      | Inr c \<Rightarrow> Inr (AList.update dest c dv))"

definition poisoned_reverse :: "router \<Rightarrow> string option \<Rightarrow> error + (string \<times> cost) list" where
  "poisoned_reverse r target_neighbor =
     foldE (poisoned_step r target_neighbor) (map fst (dis_vec r)) []"

subsection \<open>update_net\<close>

text \<open>
  One pass of the loop body for destination \<open>dest\<close>; the state is the flag
  \<open>updated\<close> and the router. \<open>relax\<close> is the first half of the body (the
  candidate cost and the entry via \<open>neighbor\<close>), \<open>select_min\<close> the second (the
  minimum over the row and the next hop). The subscripts are evaluated in the source's
  order: \<open>self.neighbors[neighbor]\<close>, then \<open>neighbor_dv[dest]\<close>, then the sum,
  then \<open>self.vec_table[dest][neighbor]\<close>.
\<close>

definition relax ::
  "string \<Rightarrow> (string \<times> adv) list \<Rightarrow> string \<Rightarrow> bool \<times> router \<Rightarrow> error + bool \<times> router" where
  "relax neighbor neighbor_dv dest st =
     (case st of (updated, r) \<Rightarrow>
       (case lookup neighbor (neighbors r) of Inl e \<Rightarrow> Inl e | Inr c \<Rightarrow>
       (case lookup dest neighbor_dv of Inl e \<Rightarrow> Inl e | Inr a \<Rightarrow>
       (case add_cost c a of Inl e \<Rightarrow> Inl e | Inr new_cost \<Rightarrow>
       (case lookup dest (vec_table r) of Inl e \<Rightarrow> Inl e | Inr row \<Rightarrow>
       (case lookup neighbor row of Inl e \<Rightarrow> Inl e | Inr old \<Rightarrow>
          if new_cost < old then
            Inr (True,
                 r\<lparr>vec_table :=
                     AList.update dest (AList.update neighbor new_cost row) (vec_table r)\<rparr>)
          else Inr (updated, r)))))))"

definition select_min :: "string \<Rightarrow> bool \<times> router \<Rightarrow> error + bool \<times> router" where
  "select_min dest st =
     (case st of (updated, r) \<Rightarrow>
       (case lookup dest (vec_table r) of Inl e \<Rightarrow> Inl e | Inr row \<Rightarrow>
       (case min_of (map snd row) of Inl e \<Rightarrow> Inl e | Inr min_cost \<Rightarrow>
       (case lookup dest (dis_vec r) of Inl e \<Rightarrow> Inl e | Inr cur \<Rightarrow>
          if min_cost < cur then
            (case min_of (map fst (filter (\<lambda>hc. snd hc = min_cost) row)) of
               Inl e \<Rightarrow> Inl e
             | Inr hop \<Rightarrow>
                 Inr (True,
                      r\<lparr>dis_vec := AList.update dest min_cost (dis_vec r),
                        next_hop := AList.update dest (Some hop) (next_hop r)\<rparr>))
          else Inr (updated, r)))))"

definition update_dest ::
  "string \<Rightarrow> (string \<times> adv) list \<Rightarrow> string \<Rightarrow> bool \<times> router \<Rightarrow> error + bool \<times> router" where
  "update_dest neighbor neighbor_dv dest st =
     (if dest = name (snd st) then Inr st
      else (case relax neighbor neighbor_dv dest st of
              Inl e \<Rightarrow> Inl e
            | Inr st1 \<Rightarrow> select_min dest st1))"

definition update_net :: "router \<Rightarrow> string \<Rightarrow> (string \<times> adv) list \<Rightarrow> error + bool \<times> router" where
  "update_net r neighbor neighbor_dv =
     foldE (update_dest neighbor neighbor_dv) (map fst (dis_vec r)) (False, r)"

section \<open>Convergence engine\<close>

text \<open>
  \<open>routers\<close> is the dict from router name to \<open>Router\<close> object. The objects are
  mutated in place by the source; the model returns the dict with the new objects in
  the same positions. The printing of the tables reads the state and does not change
  it, and is left out. The source's \<open>dis_vec_update\<close> is \<open>dv_update\<close> here
  (the record package takes the former name for the field update of \<open>dis_vec\<close>).
\<close>

type_synonym network = "(string \<times> router) list"

type_synonym vectors = "(string \<times> (string \<times> cost) list) list"

definition export_to :: "router \<Rightarrow> string \<Rightarrow> vectors \<Rightarrow> error + vectors" where
  "export_to r neighbor d =
     (case poisoned_reverse r (Some neighbor) of
        Inl e \<Rightarrow> Inl e
      | Inr dv \<Rightarrow> Inr (AList.update neighbor dv d))"

definition export_all ::
  "network \<Rightarrow> string \<Rightarrow> (string \<times> vectors) list \<Rightarrow> error + (string \<times> vectors) list" where
  "export_all routers i dv_update =
     (case lookup i routers of
        Inl e \<Rightarrow> Inl e
      | Inr r \<Rightarrow>
          (case foldE (export_to r) (map fst (neighbors r)) [] of
             Inl e \<Rightarrow> Inl e
           | Inr d \<Rightarrow> Inr (AList.update i d dv_update)))"

text \<open>
  The merge of one neighbor: the second argument handed to \<open>update_net\<close> is
  \<open>dis_vec_update[neighbor]\<close>, the dict of all the vectors that \<open>neighbor\<close>
  exported, keyed by their target.
\<close>

definition merge_neighbor ::
  "(string \<times> vectors) list \<Rightarrow> string \<Rightarrow> bool \<times> router \<Rightarrow> error + bool \<times> router" where
  "merge_neighbor dv_update neighbor st =
     (case st of (convergence, r) \<Rightarrow>
       (case lookup neighbor dv_update of
          Inl e \<Rightarrow> Inl e
        | Inr d \<Rightarrow>
            (case update_net r neighbor (map (\<lambda>kv. (fst kv, Vec (snd kv))) d) of
               Inl e \<Rightarrow> Inl e
             | Inr (updated, r') \<Rightarrow> Inr (if updated then False else convergence, r'))))"

fun merge_all ::
  "(string \<times> vectors) list \<Rightarrow> network \<Rightarrow> bool \<Rightarrow> error + bool \<times> network" where
  "merge_all dv_update [] convergence = Inr (convergence, [])"
| "merge_all dv_update ((k, r) # rs) convergence =
     (case foldE (merge_neighbor dv_update) (map fst (neighbors r)) (convergence, r) of
        Inl e \<Rightarrow> Inl e
      | Inr (convergence1, r') \<Rightarrow>
          (case merge_all dv_update rs convergence1 of
             Inl e \<Rightarrow> Inl e
           | Inr (convergence2, rs') \<Rightarrow> Inr (convergence2, (k, r') # rs')))"

definition dv_round :: "network \<Rightarrow> error + bool \<times> network" where
  "dv_round routers =
     (case foldE (export_all routers) (map fst routers) [] of
        Inl e \<Rightarrow> Inl e
      | Inr dv_update \<Rightarrow> merge_all dv_update routers True)"

text \<open>The \<open>while True\<close> loop: \<open>None\<close> is a loop that never leaves.\<close>

partial_function (option) rounds :: "network \<Rightarrow> (error + network) option" where
  "rounds routers =
     (case dv_round routers of
        Inl e \<Rightarrow> Some (Inl e)
      | Inr (convergence, routers') \<Rightarrow>
          if convergence then Some (Inr routers') else rounds routers')"

declare rounds.simps [code]

fun init_all :: "string list \<Rightarrow> network \<Rightarrow> error + network" where
  "init_all names [] = Inr []"
| "init_all names ((k, r) # rs) =
     (case init_net names r of
        Inl e \<Rightarrow> Inl e
      | Inr r' \<Rightarrow>
          (case init_all names rs of
             Inl e \<Rightarrow> Inl e
           | Inr rs' \<Rightarrow> Inr ((k, r') # rs')))"

definition distance_vector :: "network \<Rightarrow> (error + network) option" where
  "distance_vector routers =
     (case init_all (map fst routers) routers of
        Inl e \<Rightarrow> Some (Inl e)
      | Inr routers' \<Rightarrow> rounds routers')"

section \<open>Predicates used in the proofs\<close>

text \<open>
  \<open>row_of r d row\<close>: \<open>row\<close> is the row that \<open>init_net\<close> builds for destination
  \<open>d\<close> (one entry per neighbor); \<open>rows_built\<close>: the effect of the second loop of \<open>init_net\<close>.
\<close>

definition row_of :: "router \<Rightarrow> string \<Rightarrow> (string \<times> cost) list \<Rightarrow> bool" where
  "row_of r d row =
     (fst ` set row = fst ` set (neighbors r) \<and> distinct (map fst row) \<and>
      (\<forall>n c. map_of (neighbors r) n = Some c \<longrightarrow>
         map_of row n = Some (if n = d then Finite c else Infinity)))"

definition rows_built :: "string list \<Rightarrow> router \<Rightarrow> router \<Rightarrow> bool" where
  "rows_built routers r r' =
     (name r' = name r \<and> neighbors r' = neighbors r \<and>
      dis_vec r' = dis_vec r \<and> next_hop r' = next_hop r \<and>
      fst ` set (vec_table r') = set routers \<union> fst ` set (vec_table r) \<and>
      (\<forall>d. d \<notin> set routers \<longrightarrow> map_of (vec_table r') d = map_of (vec_table r) d) \<and>
      (\<forall>d\<in>set routers. \<exists>row. map_of (vec_table r') d = Some row \<and> row_of r d row))"

text \<open>
  \<open>no_increase r r'\<close>: \<open>r'\<close> has the entries of \<open>r\<close> under the same keys, none of
  them larger.
\<close>

definition no_increase :: "router \<Rightarrow> router \<Rightarrow> bool" where
  "no_increase r r' =
     (name r' = name r \<and> neighbors r' = neighbors r \<and>
      (\<forall>d. rel_option (\<lambda>c' c. c' \<le> c) (map_of (dis_vec r') d) (map_of (dis_vec r) d)) \<and>
      (\<forall>d. rel_option (\<lambda>row' row. \<forall>n. rel_option (\<lambda>c' c. c' \<le> c) (map_of row' n) (map_of row n))
             (map_of (vec_table r') d) (map_of (vec_table r) d)))"

text \<open>\<open>same_at r r' d\<close>: the entries for destination \<open>d\<close> are the same in \<open>r\<close> and \<open>r'\<close>.\<close>

definition same_at :: "router \<Rightarrow> router \<Rightarrow> string \<Rightarrow> bool" where
  "same_at r r' d =
     (map_of (dis_vec r') d = map_of (dis_vec r) d \<and>
      map_of (next_hop r') d = map_of (next_hop r) d \<and>
      map_of (vec_table r') d = map_of (vec_table r) d)"

text \<open>
  The states of one router in a run over the routers \<open>routers\<close>: \<open>main\<close> creates
  \<open>Router(nm)\<close> for a declared name and writes its links, and \<open>distance_vector\<close>
  calls \<open>init_net\<close> with the dict of all routers; before the second phase \<open>main\<close>
  changes the links and \<open>init_net\<close> runs again; within a phase the router exports
  and merges.
\<close>

inductive reachable :: "string list \<Rightarrow> router \<Rightarrow> bool" where
  reach_init:
    "nm \<in> set routers \<Longrightarrow> init_net routers ((Router nm)\<lparr>neighbors := links\<rparr>) = Inr r' \<Longrightarrow>
     reachable routers r'"
| reach_again:
    "reachable routers r \<Longrightarrow> init_net routers (r\<lparr>neighbors := links\<rparr>) = Inr r' \<Longrightarrow>
     reachable routers r'"
| reach_export:
    "reachable routers r \<Longrightarrow> poisoned_reverse r target = Inr dv \<Longrightarrow> reachable routers r"
| reach_merge:
    "reachable routers r \<Longrightarrow> update_net r neighbor neighbor_dv = Inr (updated, r') \<Longrightarrow>
     reachable routers r'"

text \<open>
  \<open>min_at r d\<close>: \<open>dis_vec[d]\<close> is the minimum of the values of the row
  \<open>vec_table[d]\<close>. \<open>best_hop_at r d\<close>: moreover \<open>next_hop[d]\<close> is the smallest
  name, in the order of Python strings, among the neighbors whose entry in the row is
  that minimum.
\<close>

definition min_at :: "router \<Rightarrow> string \<Rightarrow> bool" where
  "min_at r d =
     (\<exists>c row. map_of (dis_vec r) d = Some c \<and> map_of (vec_table r) d = Some row \<and>
        row \<noteq> [] \<and> c = Min (snd ` set row))"

definition best_hop_at :: "router \<Rightarrow> string \<Rightarrow> bool" where
  "best_hop_at r d =
     (\<exists>c row h. map_of (dis_vec r) d = Some c \<and> map_of (vec_table r) d = Some row \<and>
        row \<noteq> [] \<and> c = Min (snd ` set row) \<and>
        map_of (next_hop r) d = Some (Some h) \<and>
        (h, c) \<in> set row \<and> (\<forall>n. (n, c) \<in> set row \<longrightarrow> h \<le> n))"

section \<open>Example networks\<close>

text \<open>
  Networks as \<open>main\<close> builds them: one \<open>Router\<close> per declared name, the links
  written into both endpoints. \<open>net_AB\<close> is two routers joined by a link of cost 1.
\<close>

definition router_A :: router where
  "router_A = (Router ''A'')\<lparr>neighbors := [(''B'', 1)]\<rparr>"

definition router_B :: router where
  "router_B = (Router ''B'')\<lparr>neighbors := [(''A'', 1)]\<rparr>"

definition net_AB :: network where
  "net_AB = [(''A'', router_A), (''B'', router_B)]"

text \<open>
  Router \<open>X\<close> with the links \<open>X B 1\<close> and \<open>X A 1\<close>, entered in that order, in a
  network of the routers \<open>X\<close>, \<open>A\<close>, \<open>B\<close>, \<open>D\<close> where \<open>A\<close> and \<open>B\<close> both reach
  \<open>D\<close> at cost 4. \<open>router_X1\<close> is its state after \<open>init_net\<close>, \<open>router_X2\<close> after
  merging the vector \<open>vec_B\<close> of \<open>B\<close>, \<open>router_X3\<close> after merging the vector
  \<open>vec_A\<close> of \<open>A\<close> as well.
\<close>

definition router_X0 :: router where
  "router_X0 = (Router ''X'')\<lparr>neighbors := [(''B'', 1), (''A'', 1)]\<rparr>"

definition vec_B :: "(string \<times> adv) list" where
  "vec_B = [(''X'', Num (Finite 1)), (''A'', Num Infinity), (''B'', Num (Finite 0)),
            (''D'', Num (Finite 4))]"

definition vec_A :: "(string \<times> adv) list" where
  "vec_A = [(''X'', Num (Finite 1)), (''A'', Num (Finite 0)), (''B'', Num Infinity),
            (''D'', Num (Finite 4))]"

definition router_X1 :: router where
  "router_X1 =
     \<lparr>name = ''X'', neighbors = [(''B'', 1), (''A'', 1)],
      dis_vec = [(''X'', Finite 0), (''A'', Finite 1), (''B'', Finite 1), (''D'', Infinity)],
      next_hop = [(''X'', Some ''X''), (''A'', Some ''X''), (''B'', Some ''X''), (''D'', None)],
      vec_table =
        [(''X'', [(''B'', Infinity), (''A'', Infinity)]),
         (''A'', [(''B'', Infinity), (''A'', Finite 1)]),
         (''B'', [(''B'', Finite 1), (''A'', Infinity)]),
         (''D'', [(''B'', Infinity), (''A'', Infinity)])]\<rparr>"

definition router_X2 :: router where
  "router_X2 =
     \<lparr>name = ''X'', neighbors = [(''B'', 1), (''A'', 1)],
      dis_vec = [(''X'', Finite 0), (''A'', Finite 1), (''B'', Finite 1), (''D'', Finite 5)],
      next_hop =
        [(''X'', Some ''X''), (''A'', Some ''X''), (''B'', Some ''X''), (''D'', Some ''B'')],
      vec_table =
        [(''X'', [(''B'', Infinity), (''A'', Infinity)]),
         (''A'', [(''B'', Infinity), (''A'', Finite 1)]),
         (''B'', [(''B'', Finite 1), (''A'', Infinity)]),
         (''D'', [(''B'', Finite 5), (''A'', Infinity)])]\<rparr>"

definition router_X3 :: router where
  "router_X3 =
     \<lparr>name = ''X'', neighbors = [(''B'', 1), (''A'', 1)],
      dis_vec = [(''X'', Finite 0), (''A'', Finite 1), (''B'', Finite 1), (''D'', Finite 5)],
      next_hop =
        [(''X'', Some ''X''), (''A'', Some ''X''), (''B'', Some ''X''), (''D'', Some ''B'')],
      vec_table =
        [(''X'', [(''B'', Infinity), (''A'', Infinity)]),
         (''A'', [(''B'', Infinity), (''A'', Finite 1)]),
         (''B'', [(''B'', Finite 1), (''A'', Infinity)]),
         (''D'', [(''B'', Finite 5), (''A'', Finite 5)])]\<rparr>"

section \<open>Running the examples\<close>

lemmas eval_defs = update_net_def update_dest_def relax_def select_min_def lookup_def
  float_overflows_def less_cost_def init_net_def init_row_def init_cell_def init_node_def
  Router_def poisoned_reverse_def poisoned_step_def poisoned_entry_def

lemma init_X: "init_net [''X'', ''A'', ''B'', ''D''] router_X0 = Inr router_X1"
  by (simp add: eval_defs router_X0_def router_X1_def)

lemma merge_B: "update_net router_X1 ''B'' vec_B = Inr (True, router_X2)"
  by (simp add: eval_defs router_X1_def router_X2_def vec_B_def)

lemma merge_A: "update_net router_X2 ''A'' vec_A = Inr (True, router_X3)"
  by (simp add: eval_defs router_X2_def router_X3_def vec_A_def)

lemma export_X3: "poisoned_reverse router_X3 (Some ''B'') =
   Inr [(''X'', Finite 0), (''A'', Finite 1), (''B'', Finite 1), (''D'', Infinity)]"
  by (simp add: eval_defs router_X3_def)

section \<open>Initialisation\<close>

lemma init_node_frame [simp]:
  "name (init_node node r) = name r"
  "neighbors (init_node node r) = neighbors r"
  "vec_table (init_node node r) = vec_table r"
  by (simp_all add: init_node_def split: option.splits)

lemma fold_init_node_frame [simp]:
  "name (fold init_node routers r) = name r"
  "neighbors (fold init_node routers r) = neighbors r"
  "vec_table (fold init_node routers r) = vec_table r"
  by (induction routers arbitrary: r) simp_all

lemma init_node_dis_vec:
  "map_of (dis_vec (init_node node r)) d =
     (if d = node then
        Some (if d = name r then Finite 0
              else case map_of (neighbors r) d of Some c \<Rightarrow> Finite c | None \<Rightarrow> Infinity)
      else map_of (dis_vec r) d)"
  by (simp add: init_node_def update_conv' split: option.splits)

lemma init_node_next_hop:
  "map_of (next_hop (init_node node r)) d =
     (if d = node then
        Some (if d = name r then Some (name r)
              else case map_of (neighbors r) d of Some c \<Rightarrow> Some (name r) | None \<Rightarrow> None)
      else map_of (next_hop r) d)"
  by (simp add: init_node_def update_conv' split: option.splits)

lemma fold_init_node_dis_vec:
  "map_of (dis_vec (fold init_node routers r)) d =
     (if d \<in> set routers then
        Some (if d = name r then Finite 0
              else case map_of (neighbors r) d of Some c \<Rightarrow> Finite c | None \<Rightarrow> Infinity)
      else map_of (dis_vec r) d)"
  by (induction routers arbitrary: r) (auto simp: init_node_dis_vec)

lemma fold_init_node_next_hop:
  "map_of (next_hop (fold init_node routers r)) d =
     (if d \<in> set routers then
        Some (if d = name r then Some (name r)
              else case map_of (neighbors r) d of Some c \<Rightarrow> Some (name r) | None \<Rightarrow> None)
      else map_of (next_hop r) d)"
  by (induction routers arbitrary: r) (auto simp: init_node_next_hop cong: option.case_cong)

lemma fold_init_node_keys:
  "fst ` set (dis_vec (fold init_node routers r)) = set routers \<union> fst ` set (dis_vec r)"
  "fst ` set (next_hop (fold init_node routers r)) = set routers \<union> fst ` set (next_hop r)"
  by (induction routers arbitrary: r) (auto simp: init_node_def dom_update split: option.splits)

lemma lookup_Inr [simp]: "(lookup k d = Inr v) = (map_of d k = Some v)"
  by (simp add: lookup_def split: option.splits)

lemma lookup_Inl [simp]: "(lookup k d = Inl e) = (map_of d k = None \<and> e = KeyError)"
  by (auto simp add: lookup_def split: option.splits)

lemma key_has_value: "k \<in> fst ` set d \<Longrightarrow> \<exists>v. map_of d k = Some v"
  by (cases "map_of d k") (simp_all add: map_of_eq_None_iff)

lemma init_cells:
  "set ns \<subseteq> fst ` set (neighbors r) \<Longrightarrow>
   \<exists>row'. foldE (init_cell r node) ns row = Inr row' \<and>
     fst ` set row' = set ns \<union> fst ` set row \<and>
     (\<forall>n. map_of row' n =
        (if n \<in> set ns then
           Some (if n = node
                 then (case map_of (neighbors r) n of Some c \<Rightarrow> Finite c | None \<Rightarrow> Infinity)
                 else Infinity)
         else map_of row n))"
proof (induction ns arbitrary: row)
  case Nil
  then show ?case by simp
next
  case (Cons n ns)
  from Cons.prems obtain c where c: "map_of (neighbors r) n = Some c"
    using key_has_value [of n "neighbors r"] by auto
  define row1 where "row1 = AList.update n (if n = node then Finite c else Infinity) row"
  have step: "init_cell r node n row = Inr row1"
    using c by (auto simp: init_cell_def row1_def lookup_def)
  from Cons.prems have "set ns \<subseteq> fst ` set (neighbors r)" by simp
  from Cons.IH [OF this, of row1] obtain row' where
    r: "foldE (init_cell r node) ns row1 = Inr row'"
       "fst ` set row' = set ns \<union> fst ` set row1"
       "\<forall>m. map_of row' m =
        (if m \<in> set ns then
           Some (if m = node
                 then (case map_of (neighbors r) m of Some c \<Rightarrow> Finite c | None \<Rightarrow> Infinity)
                 else Infinity)
         else map_of row1 m)"
    by blast
  show ?case
    using step r c by (auto simp: row1_def update_conv' dom_update)
qed

lemma init_cells_distinct:
  "foldE (init_cell r node) ns row = Inr row' \<Longrightarrow> distinct (map fst row) \<Longrightarrow>
   distinct (map fst row')"
proof (induction ns arbitrary: row)
  case Nil
  then show ?case by simp
next
  case (Cons n ns)
  from Cons.prems(1) obtain row1 where 1: "init_cell r node n row = Inr row1"
    and 2: "foldE (init_cell r node) ns row1 = Inr row'"
    by (auto split: sum.splits)
  from 1 Cons.prems(2) have "distinct (map fst row1)"
    by (auto simp: init_cell_def distinct_update split: if_splits sum.splits)
  from Cons.IH [OF 2 this] show ?case .
qed

lemma init_row_result:
  "\<exists>row. init_row node r = Inr (r\<lparr>vec_table := AList.update node row (vec_table r)\<rparr>) \<and>
     fst ` set row = fst ` set (neighbors r) \<and> distinct (map fst row) \<and>
     (\<forall>n c. map_of (neighbors r) n = Some c \<longrightarrow>
        map_of row n = Some (if n = node then Finite c else Infinity))"
proof -
  have "set (map fst (neighbors r)) \<subseteq> fst ` set (neighbors r)" by simp
  from init_cells [OF this, of node "[]"] obtain row where
    row: "foldE (init_cell r node) (map fst (neighbors r)) [] = Inr row"
      "fst ` set row = set (map fst (neighbors r)) \<union> fst ` set ([] :: (string \<times> cost) list)"
      "\<forall>n. map_of row n =
        (if n \<in> set (map fst (neighbors r)) then
           Some (if n = node
                 then (case map_of (neighbors r) n of Some c \<Rightarrow> Finite c | None \<Rightarrow> Infinity)
                 else Infinity)
         else map_of [] n)"
    by blast
  have cells: "\<forall>n c. map_of (neighbors r) n = Some c \<longrightarrow>
        map_of row n = Some (if n = node then Finite c else Infinity)"
  proof (intro allI impI)
    fix n c assume c: "map_of (neighbors r) n = Some c"
    then have "n \<in> set (map fst (neighbors r))"
      by (metis map_of_eq_None_iff option.distinct(1) set_map)
    with row(3) c show "map_of row n = Some (if n = node then Finite c else Infinity)"
      by auto
  qed
  from init_cells_distinct [OF row(1)] have dist: "distinct (map fst row)"
    by simp
  from row(2) have keys: "fst ` set row = fst ` set (neighbors r)"
    by simp
  from row(1) have run: "init_row node r = Inr (r\<lparr>vec_table := AList.update node row (vec_table r)\<rparr>)"
    by (simp add: init_row_def)
  from run keys dist cells show ?thesis by blast
qed

lemma init_row_row_of:
  "\<exists>row. init_row node r = Inr (r\<lparr>vec_table := AList.update node row (vec_table r)\<rparr>) \<and>
     row_of r node row"
  using init_row_result [of node r] by (simp add: row_of_def)

lemma row_of_vec_table [simp]: "row_of (r\<lparr>vec_table := t\<rparr>) d row = row_of r d row"
  by (simp add: row_of_def)

lemma fold_init_row_result: "\<exists>r'. foldE init_row routers r = Inr r' \<and> rows_built routers r r'"
proof (induction routers arbitrary: r)
  case Nil
  then show ?case by (simp add: rows_built_def)
next
  case (Cons node routers)
  from init_row_row_of [of node r] obtain row where
    row: "init_row node r = Inr (r\<lparr>vec_table := AList.update node row (vec_table r)\<rparr>)"
    and ok: "row_of r node row"
    by blast
  define r1 where "r1 = r\<lparr>vec_table := AList.update node row (vec_table r)\<rparr>"
  from Cons.IH [of r1] obtain r' where
    run1: "foldE init_row routers r1 = Inr r'" and built: "rows_built routers r1 r'"
    by blast
  have run: "foldE init_row (node # routers) r = Inr r'"
    using row run1 by (simp add: r1_def)
  have frame: "name r' = name r" "neighbors r' = neighbors r"
    "dis_vec r' = dis_vec r" "next_hop r' = next_hop r"
    using built by (simp_all add: r1_def rows_built_def)
  have keys: "fst ` set (vec_table r') = set (node # routers) \<union> fst ` set (vec_table r)"
    using built by (auto simp: r1_def rows_built_def dom_update)
  have other: "\<forall>d. d \<notin> set (node # routers) \<longrightarrow> map_of (vec_table r') d = map_of (vec_table r) d"
    using built by (simp add: r1_def rows_built_def update_conv')
  have rows: "\<forall>d\<in>set (node # routers). \<exists>row. map_of (vec_table r') d = Some row \<and> row_of r d row"
  proof
    fix d assume d: "d \<in> set (node # routers)"
    show "\<exists>row. map_of (vec_table r') d = Some row \<and> row_of r d row"
    proof (cases "d \<in> set routers")
      case True
      with built show ?thesis by (simp add: r1_def rows_built_def)
    next
      case False
      with d have dn: "d = node" by simp
      from False built have "map_of (vec_table r') d = map_of (vec_table r1) d"
        by (simp add: rows_built_def)
      then have "map_of (vec_table r') d = Some row"
        by (simp add: r1_def dn update_conv')
      with ok dn show ?thesis by simp
    qed
  qed
  have "rows_built (node # routers) r r'"
    unfolding rows_built_def using frame keys other rows by (intro conjI)
  with run show ?case by blast
qed

lemma init_net_built:
  "\<exists>r'. init_net routers r = Inr r' \<and> rows_built routers (fold init_node routers r) r'"
  using fold_init_row_result [of routers "fold init_node routers r"]
  by (simp add: init_net_def)

text \<open>
  Claim C5. After \<open>init_net\<close> with the list of router names, for every listed
  destination \<open>d\<close>: the call returns; \<open>dis_vec[d]\<close> is 0 and \<open>next_hop[d]\<close> the
  router's own name when \<open>d\<close> is the router itself; the link cost and the router's
  own name when \<open>d\<close> is a direct neighbor; infinity and \<open>None\<close> otherwise; and the row
  \<open>vec_table[d]\<close> has exactly the neighbors as keys, with the link cost at \<open>d\<close>
  itself and infinity elsewhere. The values do not depend on the routing state before.
\<close>

theorem init_net_state:
  assumes "d \<in> set routers"
  shows "\<exists>r'. init_net routers r = Inr r' \<and>
     name r' = name r \<and> neighbors r' = neighbors r \<and>
     map_of (dis_vec r') d =
       Some (if d = name r then Finite 0
             else case map_of (neighbors r) d of Some c \<Rightarrow> Finite c | None \<Rightarrow> Infinity) \<and>
     map_of (next_hop r') d =
       Some (if d = name r then Some (name r)
             else case map_of (neighbors r) d of Some c \<Rightarrow> Some (name r) | None \<Rightarrow> None) \<and>
     (\<exists>row. map_of (vec_table r') d = Some row \<and>
        fst ` set row = fst ` set (neighbors r) \<and>
        (\<forall>n c. map_of (neighbors r) n = Some c \<longrightarrow>
           map_of row n = Some (if n = d then Finite c else Infinity)))"
proof -
  from init_net_built [of routers r] obtain r' where
    run: "init_net routers r = Inr r'"
    and built: "rows_built routers (fold init_node routers r) r'"
    by blast
  have 1: "name r' = name r" "neighbors r' = neighbors r"
    using built by (simp_all add: rows_built_def)
  have 2: "map_of (dis_vec r') d =
       Some (if d = name r then Finite 0
             else case map_of (neighbors r) d of Some c \<Rightarrow> Finite c | None \<Rightarrow> Infinity)"
    using assms built by (simp add: rows_built_def fold_init_node_dis_vec)
  have 3: "map_of (next_hop r') d =
       Some (if d = name r then Some (name r)
             else case map_of (neighbors r) d of Some c \<Rightarrow> Some (name r) | None \<Rightarrow> None)"
    using assms built by (simp add: rows_built_def fold_init_node_next_hop)
  from built assms obtain row where
    row: "map_of (vec_table r') d = Some row" "row_of (fold init_node routers r) d row"
    unfolding rows_built_def by blast
  from row(2) have 4: "fst ` set row = fst ` set (neighbors r)"
    "\<forall>n c. map_of (neighbors r) n = Some c \<longrightarrow>
           map_of row n = Some (if n = d then Finite c else Infinity)"
    by (simp_all add: row_of_def)
  show ?thesis
    apply (rule exI [of _ r'])
    apply (intro conjI)
         apply (rule run)
        apply (rule 1(1))
       apply (rule 1(2))
      apply (rule 2)
     apply (rule 3)
    apply (rule exI [of _ row])
    apply (intro conjI)
      apply (rule row(1))
     apply (rule 4(1))
    apply (rule 4(2))
    done
qed

theorem init_net_state_witness:
  "''B'' \<in> set [''A'', ''B''] \<and>
   (\<exists>r'. init_net [''A'', ''B''] router_A = Inr r' \<and>
      map_of (dis_vec r') ''B'' = Some (Finite 1) \<and>
      map_of (next_hop r') ''B'' = Some (Some ''A'') \<and>
      (\<exists>row. map_of (vec_table r') ''B'' = Some row \<and>
         map_of row ''B'' = Some (Finite 1)))"
proof -
  have mem: "''B'' \<in> set [''A'', ''B'']" by simp
  from init_net_state [OF mem, of router_A] obtain r' row where
    r: "init_net [''A'', ''B''] router_A = Inr r'"
    and dv: "map_of (dis_vec r') ''B'' =
       Some (if ''B'' = name router_A then Finite 0
             else case map_of (neighbors router_A) ''B'' of Some c \<Rightarrow> Finite c | None \<Rightarrow> Infinity)"
    and nh: "map_of (next_hop r') ''B'' =
       Some (if ''B'' = name router_A then Some (name router_A)
             else case map_of (neighbors router_A) ''B'' of Some c \<Rightarrow> Some (name router_A) | None \<Rightarrow> None)"
    and row: "map_of (vec_table r') ''B'' = Some row"
    and cells: "\<forall>n c. map_of (neighbors router_A) n = Some c \<longrightarrow>
           map_of row n = Some (if n = ''B'' then Finite c else Infinity)"
    by blast
  have nb: "map_of (neighbors router_A) ''B'' = Some 1"
    by (simp add: router_A_def Router_def)
  from cells nb have cell: "map_of row ''B'' = Some (Finite 1)"
    by simp
  from dv have dv': "map_of (dis_vec r') ''B'' = Some (Finite 1)"
    by (simp add: router_A_def Router_def)
  from nh have nh': "map_of (next_hop r') ''B'' = Some (Some ''A'')"
    by (simp add: router_A_def Router_def)
  from mem r dv' nh' row cell show ?thesis by blast
qed

lemma init_net_self:
  assumes "name r \<in> set routers" "init_net routers r = Inr r'"
  shows "name r' = name r" "map_of (dis_vec r') (name r) = Some (Finite 0)"
    "map_of (next_hop r') (name r) = Some (Some (name r))"
proof -
  from init_net_built [of routers r] assms(2)
  have built: "rows_built routers (fold init_node routers r) r'"
    by auto
  then show "name r' = name r"
    by (simp add: rows_built_def)
  from built assms(1) show "map_of (dis_vec r') (name r) = Some (Finite 0)"
    by (simp add: rows_built_def fold_init_node_dis_vec)
  from built assms(1) show "map_of (next_hop r') (name r) = Some (Some (name r))"
    by (simp add: rows_built_def fold_init_node_next_hop)
qed

section \<open>Poisoned export\<close>

lemma poisoned_steps:
  assumes "set ds \<subseteq> fst ` set (dis_vec r)" "set ds \<subseteq> fst ` set (next_hop r)"
  shows "\<exists>dv'. foldE (poisoned_step r (Some N)) ds dv = Inr dv' \<and>
     fst ` set dv' = set ds \<union> fst ` set dv \<and>
     (\<forall>D. D \<notin> set ds \<longrightarrow> map_of dv' D = map_of dv D) \<and>
     (\<forall>D c. D \<in> set ds \<longrightarrow> map_of (dis_vec r) D = Some c \<longrightarrow>
        map_of dv' D =
          Some (if map_of (next_hop r) D = Some (Some N) \<and> D \<noteq> N then Infinity else c))"
  using assms
proof (induction ds arbitrary: dv)
  case Nil
  then show ?case by simp
next
  case (Cons d ds)
  from Cons.prems key_has_value [of d "dis_vec r"] obtain c where c: "map_of (dis_vec r) d = Some c"
    by auto
  from Cons.prems key_has_value [of d "next_hop r"] obtain h where h: "map_of (next_hop r) d = Some h"
    by auto
  define e where "e = (if h = Some N \<and> d \<noteq> N then Infinity else c)"
  have entry: "poisoned_entry r (Some N) d = Inr e"
    using c h by (simp add: poisoned_entry_def lookup_def e_def)
  have step: "poisoned_step r (Some N) d dv = Inr (AList.update d e dv)"
    using entry by (simp add: poisoned_step_def)
  from Cons.prems have sub: "set ds \<subseteq> fst ` set (dis_vec r)" "set ds \<subseteq> fst ` set (next_hop r)"
    by simp_all
  from Cons.IH [OF sub, of "AList.update d e dv"] obtain dv' where
    run: "foldE (poisoned_step r (Some N)) ds (AList.update d e dv) = Inr dv'"
    and keys: "fst ` set dv' = set ds \<union> fst ` set (AList.update d e dv)"
    and out: "\<forall>D. D \<notin> set ds \<longrightarrow> map_of dv' D = map_of (AList.update d e dv) D"
    and inn: "\<forall>D c. D \<in> set ds \<longrightarrow> map_of (dis_vec r) D = Some c \<longrightarrow>
        map_of dv' D =
          Some (if map_of (next_hop r) D = Some (Some N) \<and> D \<noteq> N then Infinity else c)"
    by blast
  have 1: "foldE (poisoned_step r (Some N)) (d # ds) dv = Inr dv'"
    using step run by simp
  have 2: "fst ` set dv' = set (d # ds) \<union> fst ` set dv"
    using keys by (auto simp: dom_update)
  have 3: "\<forall>D. D \<notin> set (d # ds) \<longrightarrow> map_of dv' D = map_of dv D"
    using out by (simp add: update_conv')
  have 4: "\<forall>D c. D \<in> set (d # ds) \<longrightarrow> map_of (dis_vec r) D = Some c \<longrightarrow>
        map_of dv' D =
          Some (if map_of (next_hop r) D = Some (Some N) \<and> D \<noteq> N then Infinity else c)"
  proof (intro allI impI)
    fix D c' assume D: "D \<in> set (d # ds)" and c': "map_of (dis_vec r) D = Some c'"
    show "map_of dv' D =
          Some (if map_of (next_hop r) D = Some (Some N) \<and> D \<noteq> N then Infinity else c')"
    proof (cases "D \<in> set ds")
      case True
      with inn c' show ?thesis by blast
    next
      case False
      with D have "D = d" by simp
      with False out c c' h show ?thesis
        by (simp add: update_conv' e_def)
    qed
  qed
  from 1 2 3 4 show ?case by blast
qed

text \<open>
  Claim C4. For a router whose \<open>next_hop\<close> has an entry for every destination of its
  \<open>dis_vec\<close> (as \<open>init_net\<close> leaves it and \<open>update_net\<close> keeps it), the export to
  a target neighbor \<open>N\<close> returns a vector over exactly the destinations of
  \<open>dis_vec\<close>; it maps \<open>D\<close> to infinity when \<open>next_hop[D] = N\<close> and \<open>D \<noteq> N\<close>, and to
  \<open>dis_vec[D]\<close> otherwise. The export returns the vector only: the router is not part
  of its result, so it changes no state.
\<close>

theorem poisoned_reverse_export:
  assumes "fst ` set (dis_vec r) \<subseteq> fst ` set (next_hop r)"
  shows "\<exists>dv. poisoned_reverse r (Some N) = Inr dv \<and>
     fst ` set dv = fst ` set (dis_vec r) \<and>
     (\<forall>D c. map_of (dis_vec r) D = Some c \<longrightarrow>
        map_of dv D =
          Some (if map_of (next_hop r) D = Some (Some N) \<and> D \<noteq> N then Infinity else c))"
proof -
  have a: "set (map fst (dis_vec r)) \<subseteq> fst ` set (dis_vec r)" by simp
  have b: "set (map fst (dis_vec r)) \<subseteq> fst ` set (next_hop r)" using assms by simp
  from poisoned_steps [OF a b, of N "[]"] obtain dv where
    run: "foldE (poisoned_step r (Some N)) (map fst (dis_vec r)) [] = Inr dv"
    and keys: "fst ` set dv = set (map fst (dis_vec r)) \<union> fst ` set ([] :: (string \<times> cost) list)"
    and inn: "\<forall>D c. D \<in> set (map fst (dis_vec r)) \<longrightarrow> map_of (dis_vec r) D = Some c \<longrightarrow>
        map_of dv D =
          Some (if map_of (next_hop r) D = Some (Some N) \<and> D \<noteq> N then Infinity else c)"
    by blast
  have 1: "poisoned_reverse r (Some N) = Inr dv"
    using run by (simp add: poisoned_reverse_def)
  have 2: "fst ` set dv = fst ` set (dis_vec r)"
    using keys by simp
  have 3: "\<forall>D c. map_of (dis_vec r) D = Some c \<longrightarrow>
        map_of dv D =
          Some (if map_of (next_hop r) D = Some (Some N) \<and> D \<noteq> N then Infinity else c)"
  proof (intro allI impI)
    fix D c assume c: "map_of (dis_vec r) D = Some c"
    then have "D \<in> set (map fst (dis_vec r))"
      by (metis map_of_eq_None_iff option.distinct(1) set_map)
    with inn c show "map_of dv D =
          Some (if map_of (next_hop r) D = Some (Some N) \<and> D \<noteq> N then Infinity else c)"
      by blast
  qed
  from 1 2 3 show ?thesis by blast
qed

theorem poisoned_reverse_export_witness:
  "fst ` set (dis_vec router_X3) \<subseteq> fst ` set (next_hop router_X3) \<and>
   (\<exists>dv. poisoned_reverse router_X3 (Some ''B'') = Inr dv \<and>
      map_of dv ''D'' = Some Infinity \<and> map_of dv ''A'' = Some (Finite 1))"
proof -
  have keys: "fst ` set (dis_vec router_X3) \<subseteq> fst ` set (next_hop router_X3)"
    by (simp add: router_X3_def)
  from poisoned_reverse_export [OF keys, of "''B''"] obtain dv where
    run: "poisoned_reverse router_X3 (Some ''B'') = Inr dv"
    and entries: "\<forall>D c. map_of (dis_vec router_X3) D = Some c \<longrightarrow>
        map_of dv D =
          Some (if map_of (next_hop router_X3) D = Some (Some ''B'') \<and> D \<noteq> ''B''
                then Infinity else c)"
    by blast
  have "map_of (dis_vec router_X3) ''D'' = Some (Finite 5)"
    by (simp add: router_X3_def)
  with entries have "map_of dv ''D'' =
     Some (if map_of (next_hop router_X3) ''D'' = Some (Some ''B'') \<and> ''D'' \<noteq> ''B''
           then Infinity else Finite 5)"
    by blast
  then have d: "map_of dv ''D'' = Some Infinity"
    by (simp add: router_X3_def)
  have "map_of (dis_vec router_X3) ''A'' = Some (Finite 1)"
    by (simp add: router_X3_def)
  with entries have "map_of dv ''A'' =
     Some (if map_of (next_hop router_X3) ''A'' = Some (Some ''B'') \<and> ''A'' \<noteq> ''B''
           then Infinity else Finite 1)"
    by blast
  then have a: "map_of dv ''A'' = Some (Finite 1)"
    by (simp add: router_X3_def)
  from keys run d a show ?thesis by blast
qed

section \<open>Vector merge\<close>

lemma relax_cases:
  assumes "relax n v d (u, r) = Inr (u', r')"
  shows "\<exists>c a new row old.
     map_of (neighbors r) n = Some c \<and> map_of v d = Some a \<and> add_cost c a = Inr new \<and>
     map_of (vec_table r) d = Some row \<and> map_of row n = Some old \<and>
     (if new < old
      then u' \<and> r' = r\<lparr>vec_table := AList.update d (AList.update n new row) (vec_table r)\<rparr>
      else u' = u \<and> r' = r)"
  using assms by (auto simp: relax_def split: sum.splits if_splits)

lemma select_min_cases:
  assumes "select_min d (u, r) = Inr (u', r')"
  shows "\<exists>row m cur.
     map_of (vec_table r) d = Some row \<and> min_of (map snd row) = Inr m \<and>
     map_of (dis_vec r) d = Some cur \<and>
     (if m < cur
      then u' \<and> (\<exists>hop. min_of (map fst (filter (\<lambda>hc. snd hc = m) row)) = Inr hop \<and>
             r' = r\<lparr>dis_vec := AList.update d m (dis_vec r),
                    next_hop := AList.update d (Some hop) (next_hop r)\<rparr>)
      else u' = u \<and> r' = r)"
  using assms by (auto simp: select_min_def split: sum.splits if_splits)

lemma rel_option_le_refl: "rel_option (\<lambda>c' c. c' \<le> (c::cost)) x x"
  by (cases x) simp_all

lemma no_increase_refl: "no_increase r r"
  by (simp add: no_increase_def option.rel_refl)

lemma no_increase_trans:
  assumes "no_increase r r1" "no_increase r1 r2"
  shows "no_increase r r2"
proof -
  have dv: "rel_option (\<lambda>c' c. c' \<le> c) (map_of (dis_vec r2) d) (map_of (dis_vec r) d)" for d
  proof -
    from assms have a: "rel_option (\<lambda>c' c. c' \<le> c) (map_of (dis_vec r1) d) (map_of (dis_vec r) d)"
      and b: "rel_option (\<lambda>c' c. c' \<le> c) (map_of (dis_vec r2) d) (map_of (dis_vec r1) d)"
      by (simp_all add: no_increase_def)
    then show ?thesis
      by (cases "map_of (dis_vec r) d"; cases "map_of (dis_vec r1) d"; cases "map_of (dis_vec r2) d")
        auto
  qed
  have vt: "rel_option (\<lambda>row' row. \<forall>n. rel_option (\<lambda>c' c. c' \<le> c) (map_of row' n) (map_of row n))
             (map_of (vec_table r2) d) (map_of (vec_table r) d)" for d
  proof -
    from assms have a: "rel_option (\<lambda>row' row. \<forall>n. rel_option (\<lambda>c' c. c' \<le> c) (map_of row' n) (map_of row n))
             (map_of (vec_table r1) d) (map_of (vec_table r) d)"
      and b: "rel_option (\<lambda>row' row. \<forall>n. rel_option (\<lambda>c' c. c' \<le> c) (map_of row' n) (map_of row n))
             (map_of (vec_table r2) d) (map_of (vec_table r1) d)"
      by (simp_all add: no_increase_def)
    show ?thesis
    proof (cases "map_of (vec_table r) d")
      case None
      with a b show ?thesis
        by (cases "map_of (vec_table r1) d"; cases "map_of (vec_table r2) d") auto
    next
      case (Some row)
      with a obtain row1 where r1: "map_of (vec_table r1) d = Some row1"
        and l1: "\<forall>n. rel_option (\<lambda>c' c. c' \<le> c) (map_of row1 n) (map_of row n)"
        by (cases "map_of (vec_table r1) d") auto
      with b obtain row2 where r2: "map_of (vec_table r2) d = Some row2"
        and l2: "\<forall>n. rel_option (\<lambda>c' c. c' \<le> c) (map_of row2 n) (map_of row1 n)"
        by (cases "map_of (vec_table r2) d") auto
      have "rel_option (\<lambda>c' c. c' \<le> c) (map_of row2 n) (map_of row n)" for n
        using l1 [rule_format, of n] l2 [rule_format, of n]
        by (cases "map_of row n"; cases "map_of row1 n"; cases "map_of row2 n") auto
      with Some r2 show ?thesis by simp
    qed
  qed
  from assms have "name r2 = name r" "neighbors r2 = neighbors r"
    by (simp_all add: no_increase_def)
  with dv vt show ?thesis
    by (simp add: no_increase_def)
qed

lemma relax_no_increase:
  assumes "relax n v d (u, r) = Inr (u', r')"
  shows "no_increase r r'"
proof -
  from relax_cases [OF assms] obtain new row old where
    row: "map_of (vec_table r) d = Some row" and old: "map_of row n = Some old"
    and r': "if new < old
      then u' \<and> r' = r\<lparr>vec_table := AList.update d (AList.update n new row) (vec_table r)\<rparr>
      else u' = u \<and> r' = r"
    by blast
  show ?thesis
  proof (cases "new < old")
    case False
    with r' show ?thesis by (simp add: no_increase_refl)
  next
    case True
    with r' have eq: "r' = r\<lparr>vec_table := AList.update d (AList.update n new row) (vec_table r)\<rparr>"
      by simp
    have cell: "rel_option (\<lambda>c' c. c' \<le> c) (map_of (AList.update n new row) m) (map_of row m)" for m
      using True old by (cases "m = n") (simp_all add: update_conv' rel_option_le_refl)
    have "rel_option (\<lambda>row' row. \<forall>n. rel_option (\<lambda>c' c. c' \<le> c) (map_of row' n) (map_of row n))
             (map_of (vec_table r') x) (map_of (vec_table r) x)" for x
      using row cell by (cases "x = d") (simp_all add: eq update_conv' option.rel_refl rel_option_le_refl)
    then show ?thesis
      by (simp add: no_increase_def eq option.rel_refl)
  qed
qed

lemma select_min_no_increase:
  assumes "select_min d (u, r) = Inr (u', r')"
  shows "no_increase r r'"
proof -
  from select_min_cases [OF assms] obtain row m cur where
    cur: "map_of (dis_vec r) d = Some cur"
    and r': "if m < cur
      then u' \<and> (\<exists>hop. min_of (map fst (filter (\<lambda>hc. snd hc = m) row)) = Inr hop \<and>
             r' = r\<lparr>dis_vec := AList.update d m (dis_vec r),
                    next_hop := AList.update d (Some hop) (next_hop r)\<rparr>)
      else u' = u \<and> r' = r"
    by blast
  show ?thesis
  proof (cases "m < cur")
    case False
    with r' show ?thesis by (simp add: no_increase_refl)
  next
    case True
    with r' obtain hop where eq: "r' = r\<lparr>dis_vec := AList.update d m (dis_vec r),
                    next_hop := AList.update d (Some hop) (next_hop r)\<rparr>"
      by auto
    have "rel_option (\<lambda>c' c. c' \<le> c) (map_of (dis_vec r') x) (map_of (dis_vec r) x)" for x
      using True cur by (cases "x = d") (simp_all add: eq update_conv' rel_option_le_refl)
    then show ?thesis
      by (simp add: no_increase_def eq option.rel_refl rel_option_le_refl)
  qed
qed

lemma update_dest_no_increase:
  assumes "update_dest n v d (u, r) = Inr (u', r')"
  shows "no_increase r r'"
proof (cases "d = name r")
  case True
  with assms show ?thesis by (simp add: update_dest_def no_increase_refl)
next
  case False
  with assms obtain u1 r1 where 1: "relax n v d (u, r) = Inr (u1, r1)"
    and 2: "select_min d (u1, r1) = Inr (u', r')"
    by (auto simp: update_dest_def split: sum.splits)
  from relax_no_increase [OF 1] select_min_no_increase [OF 2] show ?thesis
    by (rule no_increase_trans)
qed

lemma foldE_update_dest_no_increase:
  "foldE (update_dest n v) ds (u, r) = Inr (u', r') \<Longrightarrow> no_increase r r'"
proof (induction ds arbitrary: u r)
  case Nil
  then show ?case by (simp add: no_increase_refl)
next
  case (Cons d ds)
  from Cons.prems obtain u1 r1 where 1: "update_dest n v d (u, r) = Inr (u1, r1)"
    and 2: "foldE (update_dest n v) ds (u1, r1) = Inr (u', r')"
    by (auto split: sum.splits)
  from update_dest_no_increase [OF 1] Cons.IH [OF 2] show ?case
    by (rule no_increase_trans)
qed

text \<open>
  Claim C7. A merge that returns leaves every entry of \<open>dis_vec\<close> and every entry of
  every row of \<open>vec_table\<close> where it was or lower: the keys are the same before and
  after (\<open>rel_option\<close> relates \<open>None\<close> to \<open>None\<close> and \<open>Some\<close> to \<open>Some\<close>), and each
  value after is at most the value before.
\<close>

theorem update_net_never_increases:
  assumes "update_net r neighbor neighbor_dv = Inr (updated, r')"
  shows "(\<forall>d. rel_option (\<lambda>c' c. c' \<le> c) (map_of (dis_vec r') d) (map_of (dis_vec r) d)) \<and>
     (\<forall>d. rel_option
             (\<lambda>row' row. \<forall>n. rel_option (\<lambda>c' c. c' \<le> c) (map_of row' n) (map_of row n))
             (map_of (vec_table r') d) (map_of (vec_table r) d))"
  using foldE_update_dest_no_increase [of neighbor neighbor_dv "map fst (dis_vec r)" False r updated r']
    assms
  by (simp add: update_net_def no_increase_def)

theorem update_net_never_increases_witness:
  "update_net router_X1 ''B'' vec_B = Inr (True, router_X2) \<and>
   rel_option (\<lambda>c' c. c' \<le> c) (map_of (dis_vec router_X2) ''D'') (map_of (dis_vec router_X1) ''D'') \<and>
   map_of (dis_vec router_X2) ''D'' = Some (Finite 5) \<and>
   map_of (dis_vec router_X1) ''D'' = Some Infinity"
proof -
  have run: "update_net router_X1 ''B'' vec_B = Inr (True, router_X2)"
    by (simp add: eval_defs router_X1_def router_X2_def vec_B_def)
  from update_net_never_increases [OF run]
  have "rel_option (\<lambda>c' c. c' \<le> c) (map_of (dis_vec router_X2) ''D'') (map_of (dis_vec router_X1) ''D'')"
    by blast
  moreover have "map_of (dis_vec router_X2) ''D'' = Some (Finite 5)"
    by (simp add: router_X2_def)
  moreover have "map_of (dis_vec router_X1) ''D'' = Some Infinity"
    by (simp add: router_X1_def)
  ultimately show ?thesis using run by blast
qed

lemma same_at_refl: "same_at r r d"
  by (simp add: same_at_def)

lemma same_at_trans: "same_at r r1 d \<Longrightarrow> same_at r1 r2 d \<Longrightarrow> same_at r r2 d"
  by (simp add: same_at_def)

lemma relax_other:
  assumes "relax n v dest (u, r) = Inr (u', r')" "d \<noteq> dest"
  shows "same_at r r' d"
proof -
  from relax_cases [OF assms(1)] obtain new row old where
    "if new < old
      then u' \<and> r' = r\<lparr>vec_table := AList.update dest (AList.update n new row) (vec_table r)\<rparr>
      else u' = u \<and> r' = r"
    by blast
  with assms(2) show ?thesis
    by (cases "new < old") (simp_all add: same_at_def update_conv')
qed

lemma select_min_other:
  assumes "select_min dest (u, r) = Inr (u', r')" "d \<noteq> dest"
  shows "same_at r r' d"
proof -
  from select_min_cases [OF assms(1)] obtain row m cur where
    "if m < cur
      then u' \<and> (\<exists>hop. min_of (map fst (filter (\<lambda>hc. snd hc = m) row)) = Inr hop \<and>
             r' = r\<lparr>dis_vec := AList.update dest m (dis_vec r),
                    next_hop := AList.update dest (Some hop) (next_hop r)\<rparr>)
      else u' = u \<and> r' = r"
    by blast
  with assms(2) show ?thesis
    by (cases "m < cur") (auto simp: same_at_def update_conv')
qed

lemma update_dest_other:
  assumes "update_dest n v dest (u, r) = Inr (u', r')" "d \<noteq> dest \<or> dest = name r"
  shows "same_at r r' d"
proof (cases "dest = name r")
  case True
  with assms(1) show ?thesis by (simp add: update_dest_def same_at_refl)
next
  case False
  with assms(2) have d: "d \<noteq> dest" by simp
  from False assms(1) obtain u1 r1 where 1: "relax n v dest (u, r) = Inr (u1, r1)"
    and 2: "select_min dest (u1, r1) = Inr (u', r')"
    by (auto simp: update_dest_def split: sum.splits)
  from relax_other [OF 1 d] select_min_other [OF 2 d] show ?thesis
    by (rule same_at_trans)
qed

lemma update_dest_name:
  assumes "update_dest n v dest (u, r) = Inr (u', r')"
  shows "name r' = name r" "neighbors r' = neighbors r"
  using update_dest_no_increase [OF assms] by (simp_all add: no_increase_def)

lemma foldE_update_dest_other:
  "foldE (update_dest n v) ds (u, r) = Inr (u', r') \<Longrightarrow>
   d \<notin> set ds \<or> d = name r \<Longrightarrow> same_at r r' d"
proof (induction ds arbitrary: u r)
  case Nil
  then show ?case by (simp add: same_at_refl)
next
  case (Cons x ds)
  from Cons.prems(1) obtain u1 r1 where 1: "update_dest n v x (u, r) = Inr (u1, r1)"
    and 2: "foldE (update_dest n v) ds (u1, r1) = Inr (u', r')"
    by (auto split: sum.splits)
  have nm: "name r1 = name r" using update_dest_name [OF 1] by simp
  from Cons.prems(2) have "d \<noteq> x \<or> x = name r" by auto
  from update_dest_other [OF 1 this] have a: "same_at r r1 d" .
  from Cons.prems(2) nm have "d \<notin> set ds \<or> d = name r1" by auto
  from Cons.IH [OF 2 this] have b: "same_at r1 r' d" .
  from a b show ?case by (rule same_at_trans)
qed

lemma update_net_self:
  assumes "update_net r n v = Inr (u, r')"
  shows "name r' = name r" "same_at r r' (name r)"
proof -
  from assms have run: "foldE (update_dest n v) (map fst (dis_vec r)) (False, r) = Inr (u, r')"
    by (simp add: update_net_def)
  from foldE_update_dest_no_increase [OF run] show "name r' = name r"
    by (simp add: no_increase_def)
  from foldE_update_dest_other [OF run, of "name r"] show "same_at r r' (name r)"
    by simp
qed

lemma reachable_name: "reachable routers r \<Longrightarrow> name r \<in> set routers"
proof (induction rule: reachable.induct)
  case (reach_init nm routers links r')
  have "name ((Router nm)\<lparr>neighbors := links\<rparr>) \<in> set routers"
    using reach_init.hyps(1) by (simp add: Router_def)
  from init_net_self(1) [OF this reach_init.hyps(2)] reach_init.hyps(1) show ?case
    by (simp add: Router_def)
next
  case (reach_again routers r links r')
  then have "name (r\<lparr>neighbors := links\<rparr>) \<in> set routers" by simp
  from init_net_self(1) [OF this reach_again.hyps(2)] reach_again.IH show ?case
    by simp
next
  case (reach_export routers r target dv)
  then show ?case by simp
next
  case (reach_merge routers r neighbor neighbor_dv updated r')
  from update_net_self(1) [OF reach_merge.hyps(2)] reach_merge.IH show ?case
    by simp
qed

text \<open>
  Claim C9. In every state of a router that initialisation, exports and merges
  produce, \<open>dis_vec\<close> maps the router's own name to 0 and \<open>next_hop\<close> maps it to the
  router's own name.
\<close>

theorem own_entry_fixed:
  assumes "reachable routers r"
  shows "map_of (dis_vec r) (name r) = Some (Finite 0) \<and>
         map_of (next_hop r) (name r) = Some (Some (name r))"
  using assms
proof (induction rule: reachable.induct)
  case (reach_init nm routers links r')
  have "name ((Router nm)\<lparr>neighbors := links\<rparr>) \<in> set routers"
    using reach_init.hyps(1) by (simp add: Router_def)
  from init_net_self [OF this reach_init.hyps(2)] show ?case by simp
next
  case (reach_again routers r links r')
  from reachable_name [OF reach_again.hyps(1)]
  have "name (r\<lparr>neighbors := links\<rparr>) \<in> set routers" by simp
  from init_net_self [OF this reach_again.hyps(2)] show ?case by simp
next
  case (reach_export routers r target dv)
  then show ?case by simp
next
  case (reach_merge routers r neighbor neighbor_dv updated r')
  from update_net_self [OF reach_merge.hyps(2)] reach_merge.IH show ?case
    by (simp add: same_at_def)
qed

theorem own_entry_fixed_witness:
  "reachable [''X'', ''A'', ''B'', ''D''] router_X2 \<and>
   map_of (dis_vec router_X2) (name router_X2) = Some (Finite 0) \<and>
   map_of (next_hop router_X2) (name router_X2) = Some (Some (name router_X2))"
proof -
  have "''X'' \<in> set [''X'', ''A'', ''B'', ''D'']"
    by simp
  from reach_init [OF this, of "[(''B'', 1), (''A'', 1)]" router_X1] init_X
  have "reachable [''X'', ''A'', ''B'', ''D''] router_X1"
    by (simp add: router_X0_def)
  from reach_merge [OF this merge_B] have r: "reachable [''X'', ''A'', ''B'', ''D''] router_X2" .
  from own_entry_fixed [OF r] r show ?thesis by simp
qed

lemma foldE_update_dest_KeyError:
  "map_of (neighbors r) m = None \<Longrightarrow> \<exists>d\<in>set ds. d \<noteq> name r \<Longrightarrow>
   foldE (update_dest m v) ds (u, r) = Inl KeyError"
proof (induction ds)
  case Nil
  then show ?case by simp
next
  case (Cons x ds)
  show ?case
  proof (cases "x = name r")
    case True
    with Cons.prems have "\<exists>d\<in>set ds. d \<noteq> name r" by auto
    from Cons.IH [OF Cons.prems(1) this] True show ?thesis
      by (simp add: update_dest_def)
  next
    case False
    with Cons.prems(1) show ?thesis
      by (simp add: update_dest_def relax_def lookup_def)
  qed
qed

text \<open>
  Claim C10. On an initialised router in a network that has another router, a merge
  for a name \<open>m\<close> that is not a key of \<open>neighbors\<close> returns nothing, whatever the
  vector: the first destination other than the router itself raises \<open>KeyError\<close> at
  \<open>self.neighbors[neighbor]\<close>.
\<close>

theorem update_net_non_neighbor:
  assumes "init_net routers r = Inr r'" and "d \<in> set routers" and "d \<noteq> name r"
    and "m \<notin> fst ` set (neighbors r)"
  shows "update_net r' m neighbor_dv = Inl KeyError"
proof -
  from init_net_built [of routers r] assms(1)
  have built: "rows_built routers (fold init_node routers r) r'"
    by auto
  then have nm: "name r' = name r" and nb: "neighbors r' = neighbors r"
    and dv: "dis_vec r' = dis_vec (fold init_node routers r)"
    by (simp_all add: rows_built_def)
  from assms(2) have "d \<in> fst ` set (dis_vec r')"
    by (simp add: dv fold_init_node_keys)
  with assms(3) nm have ex: "\<exists>d\<in>set (map fst (dis_vec r')). d \<noteq> name r'"
    by auto
  from assms(4) nb have "map_of (neighbors r') m = None"
    by (simp add: map_of_eq_None_iff)
  from foldE_update_dest_KeyError [OF this ex] show ?thesis
    by (simp add: update_net_def)
qed

theorem update_net_non_neighbor_witness:
  "init_net [''X'', ''A'', ''B'', ''D''] router_X0 = Inr router_X1 \<and>
   ''A'' \<in> set [''X'', ''A'', ''B'', ''D''] \<and> ''A'' \<noteq> name router_X0 \<and>
   ''D'' \<notin> fst ` set (neighbors router_X0) \<and>
   update_net router_X1 ''D'' vec_B = Inl KeyError"
proof -
  have 1: "''A'' \<in> set [''X'', ''A'', ''B'', ''D'']" by simp
  have 2: "''A'' \<noteq> name router_X0" by (simp add: router_X0_def Router_def)
  have 3: "''D'' \<notin> fst ` set (neighbors router_X0)" by (simp add: router_X0_def Router_def)
  from update_net_non_neighbor [OF init_X 1 2 3, of vec_B] init_X 1 2 3 show ?thesis
    by blast
qed

end
